theory Spec2Isabelle
  imports Complex_Main "HOL-Library.Word"
begin

section \<open>The input stream and the scanning primitives of stdio\<close>

text \<open>
  A \<open>FILE*\<close> opened for reading is modelled by the bytes that have not been consumed
  yet; the empty list is end of file. Every reader takes the stream and returns what is
  left of it.
\<close>

type_synonym stream = string

type_synonym size_type = "32 word"

text \<open>How a call ends: by returning, by a failed \<open>assert\<close>, by dereferencing a null
  or dangling pointer, or by \<open>exit(EXIT_FAILURE)\<close>.\<close>

datatype 'r outcome = Return 'r | Assertion_failed | Invalid_deref | Exit_failure

definition newline :: char where
  "newline = CHR 0x0A"

text \<open>\<open>isspace\<close> in the C locale: space, \<open>\t\<close>, \<open>\n\<close>, \<open>\v\<close>, \<open>\f\<close>, \<open>\r\<close>.\<close>

definition isspace :: "char \<Rightarrow> bool" where
  "isspace c \<longleftrightarrow> c = CHR 0x20 \<or> c = CHR 0x09 \<or> c = CHR 0x0A \<or> c = CHR 0x0B \<or> c = CHR 0x0C \<or> c = CHR 0x0D"

definition isdigit :: "char \<Rightarrow> bool" where
  "isdigit c \<longleftrightarrow> (48::nat) \<le> of_char c \<and> of_char c \<le> (57::nat)"

definition digit_val :: "char \<Rightarrow> nat" where
  "digit_val c = of_char c - 48"

definition skip_ws :: "stream \<Rightarrow> stream" where
  "skip_ws fp = dropWhile isspace fp"

definition decimal :: "string \<Rightarrow> nat" where
  "decimal ds = foldl (\<lambda>a c. 10 * a + digit_val c) 0 ds"

text \<open>
  The directive \<open>%u\<close>: an optional sign, then at least one decimal digit. The result
  is the rest of the stream and the value, if any. A value that does not fit
  \<open>unsigned int\<close> is reduced modulo \<open>2 ^ 32\<close>, and a minus sign negates modulo
  \<open>2 ^ 32\<close>, as \<open>strtoul\<close> followed by the store into an \<open>unsigned int\<close> does.
  On a matching failure the sign, if one was read, stays consumed.
\<close>

definition scan_sign :: "stream \<Rightarrow> bool \<times> stream" where
  "scan_sign fp =
     (case fp of
        [] \<Rightarrow> (False, fp)
      | c # r \<Rightarrow> if c = CHR ''-'' then (True, r) else if c = CHR ''+'' then (False, r) else (False, fp))"

definition scan_u :: "stream \<Rightarrow> size_type option \<times> stream" where
  "scan_u fp =
     (case scan_sign fp of (neg, r) \<Rightarrow>
        let ds = takeWhile isdigit r in
        if ds = [] then (None, r)
        else (Some (if neg then - of_nat (decimal ds) else of_nat (decimal ds)), dropWhile isdigit r))"

text \<open>\<open>fscanf(fp, " %u ", &n)\<close>: white space, the number, white space. \<open>None\<close> stands for
  every return value other than 1 (0 on a matching failure, \<open>EOF\<close> at end of file).\<close>

definition fscanf_u :: "stream \<Rightarrow> size_type option \<times> stream" where
  "fscanf_u fp =
     (case scan_u (skip_ws fp) of
        (None, r) \<Rightarrow> (None, r)
      | (Some v, r) \<Rightarrow> (Some v, skip_ws r))"

text \<open>
  \<open>fgets(buffer, n, fp)\<close> stores at most \<open>n - 1\<close> characters and stops after a newline,
  which it stores, or at end of file. It returns \<open>NULL\<close> when no character could be read.
\<close>

fun fgets_chars :: "nat \<Rightarrow> stream \<Rightarrow> string \<times> stream" where
  "fgets_chars k [] = ([], [])"
| "fgets_chars k (c # fp) =
     (if k = 0 then ([], c # fp)
      else if c = newline then ([c], fp)
      else (case fgets_chars (k - 1) fp of (b, r) \<Rightarrow> (c # b, r)))"

definition fgets :: "nat \<Rightarrow> stream \<Rightarrow> (string \<times> stream) option" where
  "fgets n fp = (if fp = [] then None else Some (fgets_chars (n - 1) fp))"

text \<open>The buffer is handed on as a C string: it ends at the first NUL byte.\<close>

definition c_str :: "string \<Rightarrow> string" where
  "c_str buffer = takeWhile (\<lambda>c. c \<noteq> CHR 0x00) buffer"

text \<open>\<open>while ((c = fgetc(fp)) != EOF && c != '\n') ;\<close>\<close>

fun skip_line :: "stream \<Rightarrow> stream" where
  "skip_line [] = []"
| "skip_line (c # fp) = (if c = newline then fp else skip_line fp)"

section \<open>What \<open>tree.h\<close> provides\<close>

text \<open>
  \<open>dp-data.h\<close> includes \<open>tree.h\<close> for the tree type, \<open>readtree\<close>, \<open>copy_tree\<close> and
  \<open>precrec_type\<close>. The tree parser and the bracket scorer are parameters of the readers:
  \<open>'t\<close> is the type of trees, \<open>'e\<close> the type of \<open>precrec_type::edges\<close>. The conversion
  of \<open>%lf\<close> is a parameter too: it gets the stream after the leading white space and
  returns the value, if any, and the rest of the stream.
\<close>

record ('t, 'e) externals =
  scan_lf :: "stream \<Rightarrow> rat option \<times> stream"
  readtree :: "string \<Rightarrow> bool \<Rightarrow> 't option"
  edges :: "'t \<Rightarrow> 'e"
  edges_nedges :: "'e \<Rightarrow> size_type"
  precrec :: "'e \<Rightarrow> 't option \<Rightarrow> size_type \<times> size_type"

text \<open>
  Modelled from the spec: \<open>precrec_type::f_score\<close> is defined in \<open>tree.h\<close>, which is
  not part of this file. The spec gives
  \<open>f_score = 0 if (edge_count+gold_edge_count)==0 else 2*common/(edge_count+gold_edge_count)\<close>.
  F-scores are exact rationals here; the rounding to \<open>float\<close> is not modelled.
\<close>

definition pr_f_score :: "size_type \<Rightarrow> size_type \<Rightarrow> size_type \<Rightarrow> rat" where
  "pr_f_score ngold ntest ncommon =
     (if unat ntest + unat ngold = 0 then 0
      else 2 * of_nat (unat ncommon) / of_nat (unat ntest + unat ngold))"

definition fscanf_lf :: "('t, 'e) externals \<Rightarrow> stream \<Rightarrow> rat option \<times> stream" where
  "fscanf_lf ext fp =
     (case scan_lf ext (skip_ws fp) of
        (None, r) \<Rightarrow> (None, r)
      | (Some v, r) \<Rightarrow> (Some v, skip_ws r))"

section \<open>\<open>parse_type\<close>\<close>

text \<open>
  The tree pointer of a record is \<open>None\<close> for \<open>NULL\<close>. In the readers \<open>'p\<close> is the
  tree itself, since a reader only ever replaces the tree it owns; in the section on
  copying \<open>'p\<close> is an address in a heap.
\<close>

record 'p parse_type =
  logprob :: rat
  nedges :: size_type
  ncorrect :: size_type
  f_score :: rat
  parse :: "'p option"

definition parse_type_default :: "'p parse_type" where
  "parse_type_default = \<lparr>logprob = 0, nedges = 0, ncorrect = 0, f_score = 0, parse = None\<rparr>"

definition parse_read ::
  "('t, 'e) externals \<Rightarrow> bool \<Rightarrow> bool \<Rightarrow> 't parse_type \<Rightarrow> stream \<Rightarrow> bool \<times> 't parse_type \<times> stream" where
  "parse_read ext downcase_flag ignore_trees p fp =
     (let p1 = p\<lparr>parse := None\<rparr> in
      case fscanf_lf ext fp of
        (None, fp1) \<Rightarrow> (False, p1, fp1)
      | (Some v, fp1) \<Rightarrow>
          let p2 = p1\<lparr>logprob := v\<rparr> in
          if ignore_trees then (True, p2, skip_line fp1)
          else (case fgets 4000 fp1 of
                  None \<Rightarrow> (False, p2, fp1)
                | Some (buffer, fp2) \<Rightarrow>
                    (True, p2\<lparr>parse := readtree ext (c_str buffer) downcase_flag\<rparr>, fp2)))"

section \<open>\<open>sentence_type\<close>\<close>

record 'p sentence_type =
  gold :: "'p option"
  gold_nedges :: size_type
  max_fscore :: rat
  parses :: "'p parse_type list"

definition sentence_type_default :: "'p sentence_type" where
  "sentence_type_default = \<lparr>gold = None, gold_nedges = 0, max_fscore = 0, parses = []\<rparr>"

definition nparses :: "'p sentence_type \<Rightarrow> nat" where
  "nparses s = length (parses s)"

text \<open>\<open>std::vector::resize\<close>: keep a prefix, or append default-constructed elements.\<close>

definition resize :: "'a \<Rightarrow> 'a list \<Rightarrow> nat \<Rightarrow> 'a list" where
  "resize dflt xs n = take n xs @ replicate (n - length xs) dflt"

text \<open>The loop over the candidates, lines 228 to 241, from index \<open>i\<close> on.\<close>

function parses_loop ::
  "('t, 'e) externals \<Rightarrow> bool \<Rightarrow> bool \<Rightarrow> 'e \<Rightarrow> nat \<Rightarrow> nat \<Rightarrow> 't sentence_type \<Rightarrow> stream
     \<Rightarrow> bool \<times> 't sentence_type \<times> stream" where
  "parses_loop ext downcase_flag ignore_trees gold_edges i n s fp =
     (if i < n then
        (case parse_read ext downcase_flag ignore_trees (parses s ! i) fp of
           (True, p, fp1) \<Rightarrow>
             (case precrec ext gold_edges (parse p) of (ntest, ncommon) \<Rightarrow>
                let f = pr_f_score (edges_nedges ext gold_edges) ntest ncommon;
                    p1 = p\<lparr>nedges := ntest, ncorrect := ncommon, f_score := f\<rparr>;
                    s1 = s\<lparr>parses := (parses s)[i := p1]\<rparr>;
                    s2 = (if f > max_fscore s1 then s1\<lparr>max_fscore := f\<rparr> else s1)
                in parses_loop ext downcase_flag ignore_trees gold_edges (Suc i) n s2 fp1)
         | (False, p, fp1) \<Rightarrow> (False, s\<lparr>parses := (parses s)[i := p]\<rparr>, fp1))
      else (True, s, fp))"
  by pat_completeness auto
termination
  by (relation "measure (\<lambda>(ext, d, ig, ge, i, n, s, fp). n - i)") auto

declare parses_loop.simps [simp del]

text \<open>\<open>sentence_type::read\<close>. After a failed scan of the header the reader echoes up to
  1000 characters of the stream to \<open>stderr\<close>, which consumes them; what is written to
  \<open>stderr\<close> is not modelled. The \<open>assert\<close> of line 223 is taken as compiled in.\<close>

definition sentence_read ::
  "('t, 'e) externals \<Rightarrow> bool \<Rightarrow> bool \<Rightarrow> 't sentence_type \<Rightarrow> stream
     \<Rightarrow> (bool \<times> 't sentence_type \<times> stream) outcome" where
  "sentence_read ext downcase_flag ignore_trees s fp =
     (let s1 = s\<lparr>gold := None\<rparr> in
      case fscanf_u fp of
        (None, fp1) \<Rightarrow> Return (False, s1, drop 1000 fp1)
      | (Some n, fp1) \<Rightarrow>
          (case (if ignore_trees then Some (s1, skip_line fp1)
                 else (case fgets 4000 fp1 of
                         None \<Rightarrow> None
                       | Some (buffer, fp2) \<Rightarrow>
                           Some (s1\<lparr>gold := readtree ext (c_str buffer) downcase_flag\<rparr>, fp2))) of
             None \<Rightarrow> Return (False, s1, fp1)
           | Some (s2, fp2) \<Rightarrow>
               (case gold s2 of
                  None \<Rightarrow> Assertion_failed
                | Some g \<Rightarrow>
                    let gold_edges = edges ext g;
                        s3 = s2\<lparr>gold_nedges := edges_nedges ext gold_edges\<rparr>;
                        s4 = s3\<lparr>parses := resize parse_type_default (parses s3) (unat n)\<rparr>
                    in Return (parses_loop ext downcase_flag ignore_trees gold_edges 0 (unat n) s4 fp2))))"

section \<open>\<open>corpus_type\<close>\<close>

record 'p corpus_type =
  sentences :: "'p sentence_type list"

definition corpus_type_default :: "'p corpus_type" where
  "corpus_type_default = \<lparr>sentences = []\<rparr>"

definition nsentences :: "'p corpus_type \<Rightarrow> nat" where
  "nsentences c = length (sentences c)"

text \<open>The loop of \<open>corpus_type::read\<close>, lines 308 to 312, from index \<open>i\<close> on.\<close>

function sentences_loop ::
  "('t, 'e) externals \<Rightarrow> bool \<Rightarrow> bool \<Rightarrow> nat \<Rightarrow> nat \<Rightarrow> 't corpus_type \<Rightarrow> stream
     \<Rightarrow> (bool \<times> 't corpus_type \<times> stream) outcome" where
  "sentences_loop ext downcase_flag ignore_trees i n c fp =
     (if i < n then
        (case sentence_read ext downcase_flag ignore_trees (sentences c ! i) fp of
           Return (ok, s, fp1) \<Rightarrow>
             let c1 = c\<lparr>sentences := (sentences c)[i := s]\<rparr> in
             if \<not> ok then Return (False, c1, fp1)
             else sentences_loop ext downcase_flag ignore_trees (Suc i) n c1 fp1
         | Assertion_failed \<Rightarrow> Assertion_failed
         | Invalid_deref \<Rightarrow> Invalid_deref
         | Exit_failure \<Rightarrow> Exit_failure)
      else Return (True, c, fp))"
  by pat_completeness auto
termination
  by (relation "measure (\<lambda>(ext, d, ig, i, n, c, fp). n - i)") auto

declare sentences_loop.simps [simp del]

definition corpus_read ::
  "('t, 'e) externals \<Rightarrow> bool \<Rightarrow> bool \<Rightarrow> 't corpus_type \<Rightarrow> stream
     \<Rightarrow> (bool \<times> 't corpus_type \<times> stream) outcome" where
  "corpus_read ext downcase_flag ignore_trees c fp =
     (case fscanf_u fp of
        (None, fp1) \<Rightarrow> Return (False, c, fp1)
      | (Some n, fp1) \<Rightarrow>
          sentences_loop ext downcase_flag ignore_trees 0 (unat n)
            (c\<lparr>sentences := resize sentence_type_default (sentences c) (unat n)\<rparr>) fp1)"




section \<open>A stand-in for \<open>tree.h\<close>, for evaluating the readers on concrete streams\<close>

text \<open>
  Every general theorem below holds for all externals. Where a reader is run on a
  concrete stream, the externals are these: a tree is the text of its line without
  white space (\<open>NULL\<close> if nothing is left), lower-cased on request; its edges are the
  characters of that text; the edges a candidate has in common with the gold tree are
  its characters that occur in the gold text. A number is an optional sign, digits and
  an optional fraction.
\<close>

definition tolower :: "char \<Rightarrow> char" where
  "tolower c =
     (if (65::nat) \<le> of_char c \<and> of_char c \<le> (90::nat) then char_of (of_char c + (32::nat)) else c)"

definition demo_scan_lf :: "stream \<Rightarrow> rat option \<times> stream" where
  "demo_scan_lf fp =
     (case scan_sign fp of (neg, r) \<Rightarrow>
        let ds = takeWhile isdigit r; r1 = dropWhile isdigit r in
        if ds = [] then (None, r)
        else
          (case r1 of
             c # r2 \<Rightarrow>
               if c = CHR ''.'' then
                 let fs = takeWhile isdigit r2;
                     v = of_nat (decimal ds) + of_nat (decimal fs) / 10 ^ length fs
                 in (Some (if neg then - v else v), dropWhile isdigit r2)
               else (Some (if neg then - of_nat (decimal ds) else of_nat (decimal ds)), r1)
           | [] \<Rightarrow> (Some (if neg then - of_nat (decimal ds) else of_nat (decimal ds)), r1)))"

definition demo_readtree :: "string \<Rightarrow> bool \<Rightarrow> string option" where
  "demo_readtree buffer downcase_flag =
     (let t = filter (\<lambda>c. \<not> isspace c) buffer in
      if t = [] then None else Some (if downcase_flag then map tolower t else t))"

definition demo_precrec :: "string \<Rightarrow> string option \<Rightarrow> size_type \<times> size_type" where
  "demo_precrec gold_edges t =
     (case t of
        None \<Rightarrow> (0, 0)
      | Some cs \<Rightarrow> (of_nat (length cs), of_nat (length (filter (\<lambda>c. c \<in> set gold_edges) cs))))"

definition demo_ext :: "(string, string) externals" where
  "demo_ext =
     \<lparr>scan_lf = demo_scan_lf, readtree = demo_readtree, edges = (\<lambda>t. t),
      edges_nedges = (\<lambda>e. of_nat (length e)), precrec = demo_precrec\<rparr>"

text \<open>What a reader returned, if it returned.\<close>

definition read_ok :: "(bool \<times> 's \<times> stream) outcome \<Rightarrow> bool option" where
  "read_ok r = (case r of Return (ok, s, fp) \<Rightarrow> Some ok | _ \<Rightarrow> None)"

definition read_state :: "(bool \<times> 's \<times> stream) outcome \<Rightarrow> 's option" where
  "read_state r = (case r of Return (ok, s, fp) \<Rightarrow> Some s | _ \<Rightarrow> None)"


definition map_count :: "(size_type \<times> 'a \<times> stream) outcome \<Rightarrow> size_type option" where
  "map_count r = (case r of Return (n, acc, fp) \<Rightarrow> Some n | _ \<Rightarrow> None)"



subsection \<open>Streams for the examples\<close>

definition nl :: string where
  "nl = [newline]"

text \<open>A header that declares three sentences, and two sentences without candidates.\<close>

definition three_declared_two_present :: stream where
  "three_declared_two_present = ''3'' @ nl @ ''0 ab'' @ nl @ ''0 cd'' @ nl"

text \<open>Gold tree with ten edges; the candidate has ten edges, nine of them in the gold tree.\<close>

definition sentence_nine_of_ten :: stream where
  "sentence_nine_of_ten = ''1 abcdefghij'' @ nl @ ''-1.5 abcdefghiX'' @ nl"

text \<open>Gold tree with ten edges; the candidate has ten edges, five of them in the gold tree.\<close>

definition sentence_five_of_ten :: stream where
  "sentence_five_of_ten = ''1 abcdefghij'' @ nl @ ''-2.5 abcdeVWXYZ'' @ nl"

text \<open>Gold tree with ten edges; the candidate has eight edges, six of them in the gold tree.\<close>

definition sentence_six_of_eight :: stream where
  "sentence_six_of_eight = ''1 abcdefghij'' @ nl @ ''-1.5 abcdefXY'' @ nl"



text \<open>A sentence laid out as the wire format of the spec has it: the gold line, then the
  candidate count, then the candidate.\<close>

definition gold_line_first :: stream where
  "gold_line_first = ''abcdefghij'' @ nl @ ''1'' @ nl @ ''-1.5 abcdefghiX'' @ nl"

text \<open>A candidate whose tree text is 4001 characters long.\<close>

definition long_candidate :: stream where
  "long_candidate = ''-1.5 '' @ replicate 3999 (CHR ''a'') @ ''bc'' @ nl"

text \<open>A sentence whose gold tree text is 4001 characters long.\<close>

definition long_gold_sentence :: stream where
  "long_gold_sentence = ''1 '' @ replicate 3999 (CHR ''a'') @ ''bc'' @ nl"

text \<open>The sentence object after reading \<open>sentence_nine_of_ten\<close> into a fresh one.\<close>

definition after_nine_of_ten :: "string sentence_type" where
  "after_nine_of_ten =
     \<lparr>gold = Some ''abcdefghij'', gold_nedges = 10, max_fscore = 9 / 10,
      parses = [\<lparr>logprob = - (3 / 2), nedges = 10, ncorrect = 9, f_score = 9 / 10,
                 parse = Some ''abcdefghiX''\<rparr>]\<rparr>"

section \<open>\<open>corpus_type::popen_decompress\<close>\<close>

text \<open>\<open>strrchr\<close>: the rest of the string from the last occurrence of the character on,
  or \<open>NULL\<close>.\<close>

fun strrchr :: "string \<Rightarrow> char \<Rightarrow> string option" where
  "strrchr [] c = None"
| "strrchr (x # xs) c =
     (case strrchr xs c of
        Some r \<Rightarrow> Some r
      | None \<Rightarrow> if x = c then Some (x # xs) else None)"

text \<open>\<open>strcasecmp\<close>: the difference of the first pair of bytes that differ after
  lower-casing, the end of a string counting as 0.\<close>

fun strcasecmp :: "string \<Rightarrow> string \<Rightarrow> int" where
  "strcasecmp [] [] = 0"
| "strcasecmp [] (b # bs) = - int (of_char (tolower b))"
| "strcasecmp (a # as) [] = int (of_char (tolower a))"
| "strcasecmp (a # as) (b # bs) =
     (if tolower a = tolower b then strcasecmp as bs
      else int (of_char (tolower a)) - int (of_char (tolower b)))"

text \<open>
  \<open>popen\<close> is a parameter: it gets the command line and returns the stream, or \<open>NULL\<close>.
  \<open>strcasecmp\<close> reads through its first argument, so a \<open>NULL\<close> from \<open>strrchr\<close> is
  dereferenced.
\<close>

definition popen_decompress :: "(string \<Rightarrow> 'f option) \<Rightarrow> string \<Rightarrow> 'f outcome" where
  "popen_decompress popen filename =
     (case strrchr filename (CHR ''.'') of
        None \<Rightarrow> Invalid_deref
      | Some filesuffix \<Rightarrow>
          let command =
                (if strcasecmp filesuffix ''.bz2'' \<noteq> 0
                 then (if strcasecmp filesuffix ''.gz'' \<noteq> 0 then ''cat '' else ''gunzip -c '')
                 else ''bzcat '') @ filename
          in (case popen command of
                None \<Rightarrow> Exit_failure
              | Some fp \<Rightarrow> Return fp))"

text \<open>A launcher for the examples: the stream it returns is the command line itself.\<close>

definition stub_popen :: "string \<Rightarrow> string option" where
  "stub_popen command = Some command"

section \<open>Copying and assignment of \<open>parse_type\<close>: trees on a heap\<close>

text \<open>
  For the copy constructor, the assignment operator and the destructor the identity of
  a tree matters. A heap is a list of cells, an address is an index into it; a cell holds
  a live tree or has been freed. A new tree gets an address that was never used.
  The \<open>parse_type\<close> objects live in a list of their own, so that \<open>this != &dp\<close> is a
  comparison of indices.
\<close>

type_synonym addr = nat

record 't memory =
  tree_heap :: "'t option list"
  parse_objs :: "addr parse_type list"

definition tree_at :: "'t option list \<Rightarrow> addr \<Rightarrow> 't option" where
  "tree_at h a = (if a < length h then h ! a else None)"

definition new_tree :: "'t option list \<Rightarrow> 't \<Rightarrow> addr \<times> 't option list" where
  "new_tree h t = (length h, h @ [Some t])"

definition delete_tree :: "'t option list \<Rightarrow> addr \<Rightarrow> 't option list" where
  "delete_tree h a = h[a := None]"

text \<open>
  Modelled from the spec: \<open>tree::copy_tree\<close> is defined in \<open>tree.h\<close>, which is not part
  of this file. The spec gives \<open>Tree.deep_copy() -> Tree\<close>, a copy that is always deep:
  a new tree, equal to the one copied. It is a member function, so it reads through the
  pointer it is called on.
\<close>

definition copy_tree :: "'t option list \<Rightarrow> addr option \<Rightarrow> (addr \<times> 't option list) outcome" where
  "copy_tree h p =
     (case p of
        None \<Rightarrow> Invalid_deref
      | Some a \<Rightarrow>
          (case tree_at h a of
             None \<Rightarrow> Invalid_deref
           | Some t \<Rightarrow> Return (new_tree h t)))"

text \<open>\<open>parse_type::operator=\<close>, lines 55 to 66; \<open>this\<close> and \<open>dp\<close> are objects in memory.\<close>

definition parse_assign :: "'t memory \<Rightarrow> nat \<Rightarrow> nat \<Rightarrow> 't memory outcome" where
  "parse_assign m this dp =
     (if this \<ge> length (parse_objs m) \<or> dp \<ge> length (parse_objs m) then Invalid_deref
      else if this \<noteq> dp then
        let d = parse_objs m ! dp;
            p = (parse_objs m ! this)
                  \<lparr>logprob := logprob d, nedges := nedges d, ncorrect := ncorrect d,
                   f_score := f_score d\<rparr>;
            h = (case parse p of Some a \<Rightarrow> delete_tree (tree_heap m) a | None \<Rightarrow> tree_heap m)
        in (case copy_tree h (parse d) of
              Return (a, h1) \<Rightarrow>
                Return (m\<lparr>tree_heap := h1, parse_objs := (parse_objs m)[this := p\<lparr>parse := Some a\<rparr>]\<rparr>)
            | Assertion_failed \<Rightarrow> Assertion_failed
            | Invalid_deref \<Rightarrow> Invalid_deref
            | Exit_failure \<Rightarrow> Exit_failure)
      else Return m)"

text \<open>The copy constructor, lines 70 to 77: the new object is appended to the objects, and
  its index is returned.\<close>

definition parse_copy :: "'t memory \<Rightarrow> nat \<Rightarrow> (nat \<times> 't memory) outcome" where
  "parse_copy m dp =
     (if dp \<ge> length (parse_objs m) then Invalid_deref
      else
        let d = parse_objs m ! dp;
            p = \<lparr>logprob = logprob d, nedges = nedges d, ncorrect = ncorrect d,
                 f_score = f_score d, parse = None\<rparr>
        in if parse d \<noteq> None then
             (case copy_tree (tree_heap m) (parse d) of
                Return (a, h1) \<Rightarrow>
                  Return (length (parse_objs m),
                          m\<lparr>tree_heap := h1, parse_objs := parse_objs m @ [p\<lparr>parse := Some a\<rparr>]\<rparr>)
              | Assertion_failed \<Rightarrow> Assertion_failed
              | Invalid_deref \<Rightarrow> Invalid_deref
              | Exit_failure \<Rightarrow> Exit_failure)
           else Return (length (parse_objs m), m\<lparr>parse_objs := parse_objs m @ [p]\<rparr>))"

text \<open>The destructor, line 51.\<close>

definition parse_destroy :: "'t memory \<Rightarrow> nat \<Rightarrow> 't memory" where
  "parse_destroy m i =
     (case parse (parse_objs m ! i) of
        Some a \<Rightarrow> m\<lparr>tree_heap := delete_tree (tree_heap m) a\<rparr>
      | None \<Rightarrow> m)"

text \<open>Memory for the examples: object 0 owns the tree at address 0, object 1 is as the
  default constructor leaves it.\<close>

definition demo_memory :: "string memory" where
  "demo_memory =
     \<lparr>tree_heap = [Some ''abcdefghij''],
      parse_objs = [parse_type_default\<lparr>logprob := - (3 / 2), parse := Some 0\<rparr>, parse_type_default]\<rparr>"

text \<open>Memory in which object 1 is as \<open>parse_type::read\<close> with \<open>ignore_trees\<close> leaves it:
  a log probability and no tree.\<close>

definition ignored_tree_memory :: "string memory" where
  "ignored_tree_memory =
     \<lparr>tree_heap = [Some ''abcdefghij''],
      parse_objs = [parse_type_default\<lparr>logprob := - (3 / 2), parse := Some 0\<rparr>,
                    parse_type_default\<lparr>logprob := - (5 / 2)\<rparr>]\<rparr>"

section \<open>The loop over the candidates\<close>


lemma parse_read_fields:
  assumes "parse_read ext dc ig p fp = (ok, p', fp')"
  shows "nedges p' = nedges p \<and> ncorrect p' = ncorrect p \<and> f_score p' = f_score p"
  using assms
  by (auto simp: parse_read_def Let_def split: prod.splits option.splits if_splits)

lemma parses_loop_frame:
  "parses_loop ext dc ig ge i n s fp = (ok, s', fp') \<Longrightarrow>
     length (parses s') = length (parses s) \<and> gold s' = gold s \<and>
     gold_nedges s' = gold_nedges s \<and> (\<forall>j<i. parses s' ! j = parses s ! j)"
proof (induction ext dc ig ge i n s fp rule: parses_loop.induct)
  case (1 ext dc ig ge i n s fp)
  show ?case
  proof (cases "i < n")
    case False
    with "1.prems" show ?thesis by (simp add: parses_loop.simps)
  next
    case True
    obtain ok1 p fp1 where rd: "parse_read ext dc ig (parses s ! i) fp = (ok1, p, fp1)"
      by (cases "parse_read ext dc ig (parses s ! i) fp")
    show ?thesis
    proof (cases ok1)
      case False
      with True rd "1.prems" show ?thesis
        by (auto simp: parses_loop.simps [of ext dc ig ge i n s fp])
    next
      case ok: True
      obtain ntest ncommon where pr: "precrec ext ge (parse p) = (ntest, ncommon)"
        by (cases "precrec ext ge (parse p)")
      define f where "f = pr_f_score (edges_nedges ext ge) ntest ncommon"
      define p1 where "p1 = p\<lparr>nedges := ntest, ncorrect := ncommon, f_score := f\<rparr>"
      define s1 where "s1 = s\<lparr>parses := (parses s)[i := p1]\<rparr>"
      define s2 where "s2 = (if f > max_fscore s1 then s1\<lparr>max_fscore := f\<rparr> else s1)"
      from True rd ok pr
      have "parses_loop ext dc ig ge i n s fp = parses_loop ext dc ig ge (Suc i) n s2 fp1"
        by (simp add: parses_loop.simps [of ext dc ig ge i n s fp] Let_def
            f_def p1_def s1_def s2_def)
      with "1.prems" have run: "parses_loop ext dc ig ge (Suc i) n s2 fp1 = (ok, s', fp')"
        by simp
      have "length (parses s') = length (parses s2) \<and> gold s' = gold s2 \<and>
            gold_nedges s' = gold_nedges s2 \<and> (\<forall>j<Suc i. parses s' ! j = parses s2 ! j)"
        using "1.IH" [OF True rd [symmetric] _ refl pr [symmetric] f_def p1_def s1_def s2_def run] ok
        by simp
      then show ?thesis by (auto simp: s2_def s1_def)
    qed
  qed
qed

lemma parses_loop_scored:
  "parses_loop ext dc ig ge i n s fp = (True, s', fp') \<Longrightarrow> n \<le> length (parses s) \<Longrightarrow>
     i \<le> j \<Longrightarrow> j < n \<Longrightarrow>
     (nedges (parses s' ! j), ncorrect (parses s' ! j)) = precrec ext ge (parse (parses s' ! j)) \<and>
     f_score (parses s' ! j)
       = pr_f_score (edges_nedges ext ge) (nedges (parses s' ! j)) (ncorrect (parses s' ! j))"
proof (induction ext dc ig ge i n s fp rule: parses_loop.induct)
  case (1 ext dc ig ge i n s fp)
  from "1.prems" have True: "i < n" by simp
  obtain ok1 p fp1 where rd: "parse_read ext dc ig (parses s ! i) fp = (ok1, p, fp1)"
    by (cases "parse_read ext dc ig (parses s ! i) fp")
  from True rd "1.prems"(1) have ok: ok1
    by (cases ok1) (auto simp: parses_loop.simps [of ext dc ig ge i n s fp])
  obtain ntest ncommon where pr: "precrec ext ge (parse p) = (ntest, ncommon)"
    by (cases "precrec ext ge (parse p)")
  define f where "f = pr_f_score (edges_nedges ext ge) ntest ncommon"
  define p1 where "p1 = p\<lparr>nedges := ntest, ncorrect := ncommon, f_score := f\<rparr>"
  define s1 where "s1 = s\<lparr>parses := (parses s)[i := p1]\<rparr>"
  define s2 where "s2 = (if f > max_fscore s1 then s1\<lparr>max_fscore := f\<rparr> else s1)"
  from True rd ok pr
  have "parses_loop ext dc ig ge i n s fp = parses_loop ext dc ig ge (Suc i) n s2 fp1"
    by (simp add: parses_loop.simps [of ext dc ig ge i n s fp] Let_def
        f_def p1_def s1_def s2_def)
  with "1.prems"(1) have run: "parses_loop ext dc ig ge (Suc i) n s2 fp1 = (True, s', fp')"
    by simp
  have len2: "n \<le> length (parses s2)"
    using "1.prems"(2) by (simp add: s2_def s1_def)
  show ?case
  proof (cases "j = i")
    case False
    with "1.prems" have "Suc i \<le> j" by simp
    from "1.IH" [OF True rd [symmetric] _ refl pr [symmetric] f_def p1_def s1_def s2_def run len2
        this "1.prems"(4)] ok
    show ?thesis by simp
  next
    case ji: True
    from parses_loop_frame [OF run] have "parses s' ! i = parses s2 ! i" by simp
    also from True "1.prems"(2) have "\<dots> = p1" by (simp add: s2_def s1_def)
    finally show ?thesis using pr by (simp add: ji p1_def f_def)
  qed
qed


text \<open>What a successful \<open>sentence_type::read\<close> has done.\<close>

lemma sentence_read_True:
  assumes "sentence_read ext dc ig s fp = Return (True, s', fp')"
  shows "\<exists>n fp1 buffer fp2 g.
           \<not> ig \<and> fscanf_u fp = (Some n, fp1) \<and> fgets 4000 fp1 = Some (buffer, fp2) \<and>
           readtree ext (c_str buffer) dc = Some g \<and>
           parses_loop ext dc ig (edges ext g) 0 (unat n)
             (s\<lparr>gold := Some g, gold_nedges := edges_nedges ext (edges ext g),
                parses := resize parse_type_default (parses s) (unat n)\<rparr>) fp2
             = (True, s', fp')"
  using assms
  by (auto simp: sentence_read_def Let_def split: prod.splits option.splits if_splits)

section \<open>The corpus reader\<close>

lemma length_resize: "length (resize d xs n) = n"
  by (simp add: resize_def)

lemma read_state_Return: "read_ok r = Some ok \<Longrightarrow> \<exists>s fp. r = Return (ok, s, fp)"
  by (auto simp: read_ok_def split: outcome.splits)

lemma sentences_loop_length:
  "sentences_loop ext dc ig i n c fp = Return (ok, c', fp') \<Longrightarrow>
     length (sentences c') = length (sentences c)"
proof (induction ext dc ig i n c fp rule: sentences_loop.induct)
  case (1 ext dc ig i n c fp)
  show ?case
  proof (cases "i < n")
    case False
    with "1.prems" show ?thesis by (simp add: sentences_loop.simps)
  next
    case True
    show ?thesis
    proof (cases "sentence_read ext dc ig (sentences c ! i) fp")
      case (Return r)
      obtain ok1 s fp1 where r: "r = (ok1, s, fp1)" by (cases r)
      show ?thesis
      proof (cases ok1)
        case False
        with True Return r "1.prems" show ?thesis
          by (auto simp: sentences_loop.simps [of ext dc ig i n c fp])
      next
        case ok: True
        from True Return r ok "1.prems"
        have "sentences_loop ext dc ig (Suc i) n (c\<lparr>sentences := (sentences c)[i := s]\<rparr>) fp1
                = Return (ok, c', fp')"
          by (simp add: sentences_loop.simps [of ext dc ig i n c fp])
        from "1.IH" [OF True Return r [symmetric] refl refl _ this] ok
        show ?thesis by simp
      qed
    qed (use True "1.prems" in \<open>simp_all add: sentences_loop.simps [of ext dc ig i n c fp]\<close>)
  qed
qed

lemma sentences_loop_below:
  "sentences_loop ext dc ig i n c fp = Return (ok, c', fp') \<Longrightarrow> j < i \<Longrightarrow>
     sentences c' ! j = sentences c ! j"
proof (induction ext dc ig i n c fp rule: sentences_loop.induct)
  case (1 ext dc ig i n c fp)
  show ?case
  proof (cases "i < n")
    case False
    with "1.prems" show ?thesis by (simp add: sentences_loop.simps)
  next
    case True
    show ?thesis
    proof (cases "sentence_read ext dc ig (sentences c ! i) fp")
      case (Return r)
      obtain ok1 s fp1 where r: "r = (ok1, s, fp1)" by (cases r)
      show ?thesis
      proof (cases ok1)
        case False
        with True Return r "1.prems" show ?thesis
          by (auto simp: sentences_loop.simps [of ext dc ig i n c fp])
      next
        case ok: True
        from True Return r ok "1.prems"
        have "sentences_loop ext dc ig (Suc i) n (c\<lparr>sentences := (sentences c)[i := s]\<rparr>) fp1
                = Return (ok, c', fp')"
          by (simp add: sentences_loop.simps [of ext dc ig i n c fp])
        from "1.IH" [OF True Return r [symmetric] refl refl _ this] ok "1.prems"(2)
        show ?thesis by simp
      qed
    qed (use True "1.prems" in \<open>simp_all add: sentences_loop.simps [of ext dc ig i n c fp]\<close>)
  qed
qed

text \<open>
  A run of the loop from index \<open>i\<close>: \<open>k\<close> is the index at which it stops, \<open>pos j\<close> the
  stream at which the read of sentence \<open>j\<close> starts.
\<close>

lemma sentences_loop_trace:
  "sentences_loop ext dc ig i n c fp = Return (ok, c', fp') \<Longrightarrow> i \<le> n \<Longrightarrow>
   n \<le> length (sentences c) \<Longrightarrow>
     \<exists>k pos. i \<le> k \<and> k \<le> n \<and> (ok \<longleftrightarrow> k = n) \<and> pos i = fp \<and>
       (\<forall>j. i \<le> j \<and> j < k \<longrightarrow>
          sentence_read ext dc ig (sentences c ! j) (pos j)
            = Return (True, sentences c' ! j, pos (Suc j))) \<and>
       (if ok then pos k = fp'
        else sentence_read ext dc ig (sentences c ! k) (pos k)
               = Return (False, sentences c' ! k, fp') \<and>
             (\<forall>j. k < j \<longrightarrow> sentences c' ! j = sentences c ! j))"
proof (induction ext dc ig i n c fp rule: sentences_loop.induct)
  case (1 ext dc ig i n c fp)
  show ?case
  proof (cases "i < n")
    case False
    with "1.prems" have "i = n" "ok" "c' = c" "fp' = fp"
      by (auto simp: sentences_loop.simps [of ext dc ig i n c fp])
    then show ?thesis
      by (intro exI [of _ n] exI [of _ "\<lambda>j. fp"]) auto
  next
    case True
    show ?thesis
    proof (cases "sentence_read ext dc ig (sentences c ! i) fp")
      case (Return r)
      obtain ok1 s fp1 where r: "r = (ok1, s, fp1)" by (cases r)
      let ?c1 = "c\<lparr>sentences := (sentences c)[i := s]\<rparr>"
      from True "1.prems"(3) have ilen: "i < length (sentences c)" by simp
      show ?thesis
      proof (cases ok1)
        case False
        with True Return r "1.prems"(1) have res: "\<not> ok" "c' = ?c1" "fp' = fp1"
          by (auto simp: sentences_loop.simps [of ext dc ig i n c fp])
        from res ilen have "sentences c' ! i = s" by simp
        with Return r False res True show ?thesis
          by (intro exI [of _ i] exI [of _ "\<lambda>j. fp"]) auto
      next
        case ok1: True
        from True Return r ok1 "1.prems"(1)
        have run: "sentences_loop ext dc ig (Suc i) n ?c1 fp1 = Return (ok, c', fp')"
          by (simp add: sentences_loop.simps [of ext dc ig i n c fp])
        from True "1.prems"(3) have b: "Suc i \<le> n" "n \<le> length (sentences ?c1)"
          by simp_all
        from "1.IH" [OF True Return r [symmetric] refl refl _ run b] ok1
        obtain k pos where k: "Suc i \<le> k" "k \<le> n" "ok \<longleftrightarrow> k = n" "pos (Suc i) = fp1"
          and pre: "\<forall>j. Suc i \<le> j \<and> j < k \<longrightarrow>
                 sentence_read ext dc ig (sentences ?c1 ! j) (pos j)
                   = Return (True, sentences c' ! j, pos (Suc j))"
          and fin: "if ok then pos k = fp'
                 else sentence_read ext dc ig (sentences ?c1 ! k) (pos k)
                        = Return (False, sentences c' ! k, fp') \<and>
                      (\<forall>j. k < j \<longrightarrow> sentences c' ! j = sentences ?c1 ! j)"
          by auto
        let ?pos = "pos(i := fp)"
        from sentences_loop_below [OF run, of i] ilen have ci: "sentences c' ! i = s"
          by simp
        have "sentence_read ext dc ig (sentences c ! j) (?pos j)
                = Return (True, sentences c' ! j, ?pos (Suc j))" if "i \<le> j" "j < k" for j
        proof (cases "j = i")
          case True
          with Return r ok1 ci k(4) show ?thesis by simp
        next
          case False
          with that have "Suc i \<le> j" by simp
          with pre that False show ?thesis by simp
        qed
        moreover have "if ok then ?pos k = fp'
                 else sentence_read ext dc ig (sentences c ! k) (?pos k)
                        = Return (False, sentences c' ! k, fp') \<and>
                      (\<forall>j. k < j \<longrightarrow> sentences c' ! j = sentences c ! j)"
          using fin k(1) by (auto split: if_splits)
        moreover from k have "i \<le> k" "?pos i = fp" by simp_all
        ultimately show ?thesis using k(2,3)
          by (intro exI [of _ k] exI [of _ ?pos]) simp
      qed
    qed (use True "1.prems" in \<open>simp_all add: sentences_loop.simps [of ext dc ig i n c fp]\<close>)
  qed
qed

text \<open>
  C1, as stated: after a failed read the corpus holds only the sentences read before the
  failure, so that a stream declaring 3 sentences and containing 2 leaves
  \<open>nsentences() == 2\<close>. On that stream the read fails and leaves \<open>nsentences() == 3\<close>.
\<close>

theorem corpus_read_short_stream_keeps_declared_length:
  "read_ok (corpus_read demo_ext False False corpus_type_default three_declared_two_present)
     = Some False \<and>
   map_option nsentences
     (read_state (corpus_read demo_ext False False corpus_type_default three_declared_two_present))
     = Some 3"
  by code_simp

text \<open>
  C1, amended: whenever \<open>corpus_type::read\<close> returns, true or false, on a stream whose
  header count \<open>M\<close> scans, \<open>nsentences() == M\<close>, since the vector is resized to \<open>M\<close>
  before the first sentence is read. The read stops at an index \<open>k\<close>, which is \<open>M\<close> exactly
  when it returns true. Every entry before \<open>k\<close> is the sentence record that a successful
  \<open>sentence_type::read\<close> made of the entry \<open>resize\<close> left there, each read starting
  where the one before it stopped. After a false return \<open>k < M\<close>, entry \<open>k\<close> is what the
  failed read left, and the entries behind \<open>k\<close> are as \<open>resize\<close> left them: the corpus
  holds the sentences read before the failure at its front, and \<open>M\<close> entries in all.
  When the header count does not scan, the read returns false and leaves the corpus as it
  was (\<open>nsentences() == 0\<close> for a fresh corpus).
\<close>

theorem corpus_read_nsentences:
  assumes "corpus_read ext dc ig c fp = Return (ok, c', fp')"
  shows "case fscanf_u fp of
           (None, fp1) \<Rightarrow> \<not> ok \<and> c' = c \<and> fp' = fp1
         | (Some M, fp1) \<Rightarrow>
             nsentences c' = unat M \<and>
             (\<exists>k pos. k \<le> unat M \<and> (ok \<longleftrightarrow> k = unat M) \<and> pos 0 = fp1 \<and>
                (\<forall>j<k. sentence_read ext dc ig
                          (resize sentence_type_default (sentences c) (unat M) ! j) (pos j)
                          = Return (True, sentences c' ! j, pos (Suc j))) \<and>
                (if ok then pos k = fp'
                 else sentence_read ext dc ig
                        (resize sentence_type_default (sentences c) (unat M) ! k) (pos k)
                        = Return (False, sentences c' ! k, fp') \<and>
                      (\<forall>j. k < j \<and> j < unat M \<longrightarrow>
                         sentences c' ! j
                           = resize sentence_type_default (sentences c) (unat M) ! j)))"
proof (cases "fscanf_u fp")
  case (Pair v fp1)
  show ?thesis
  proof (cases v)
    case None
    with Pair assms show ?thesis by (simp add: corpus_read_def)
  next
    case (Some M)
    let ?c = "c\<lparr>sentences := resize sentence_type_default (sentences c) (unat M)\<rparr>"
    from Pair Some assms
    have loop: "sentences_loop ext dc ig 0 (unat M) ?c fp1 = Return (ok, c', fp')"
      by (simp add: corpus_read_def)
    from sentences_loop_length [OF loop] have len: "nsentences c' = unat M"
      by (simp add: nsentences_def length_resize)
    have "unat M \<le> length (sentences ?c)" by (simp add: length_resize)
    from sentences_loop_trace [OF loop _ this] obtain k pos where
      "k \<le> unat M" "ok \<longleftrightarrow> k = unat M" "pos 0 = fp1"
      "\<forall>j<k. sentence_read ext dc ig (sentences ?c ! j) (pos j)
                = Return (True, sentences c' ! j, pos (Suc j))"
      "if ok then pos k = fp'
       else sentence_read ext dc ig (sentences ?c ! k) (pos k)
              = Return (False, sentences c' ! k, fp') \<and>
            (\<forall>j. k < j \<longrightarrow> sentences c' ! j = sentences ?c ! j)"
      by auto
    then have "\<exists>k pos. k \<le> unat M \<and> (ok \<longleftrightarrow> k = unat M) \<and> pos 0 = fp1 \<and>
                (\<forall>j<k. sentence_read ext dc ig
                          (resize sentence_type_default (sentences c) (unat M) ! j) (pos j)
                          = Return (True, sentences c' ! j, pos (Suc j))) \<and>
                (if ok then pos k = fp'
                 else sentence_read ext dc ig
                        (resize sentence_type_default (sentences c) (unat M) ! k) (pos k)
                        = Return (False, sentences c' ! k, fp') \<and>
                      (\<forall>j. k < j \<and> j < unat M \<longrightarrow>
                         sentences c' ! j
                           = resize sentence_type_default (sentences c) (unat M) ! j))"
      by (intro exI [of _ k] exI [of _ pos]) (simp split: if_splits)
    with len Pair Some show ?thesis by simp
  qed
qed

theorem corpus_read_nsentences_witness:
  "fscanf_u three_declared_two_present = (Some 3, ''0 ab'' @ nl @ ''0 cd'' @ nl) \<and>
   (\<exists>c r. corpus_read demo_ext False False corpus_type_default three_declared_two_present
            = Return (False, c, r) \<and> nsentences c = 3 \<and>
          map gold (sentences c) = [Some ''ab'', Some ''cd'', None] \<and>
          sentences c ! 2 = sentence_type_default)"
proof -
  let ?r = "corpus_read demo_ext False False corpus_type_default three_declared_two_present"
  have hdr: "fscanf_u three_declared_two_present = (Some 3, ''0 ab'' @ nl @ ''0 cd'' @ nl)"
    by code_simp
  have "read_ok ?r = Some False"
    by code_simp
  from read_state_Return [OF this] obtain c r where ret: "?r = Return (False, c, r)"
    by blast
  from corpus_read_nsentences [OF ret] hdr have n: "nsentences c = 3"
    by simp
  have "map_option (map gold \<circ> sentences) (read_state ?r) = Some [Some ''ab'', Some ''cd'', None]"
    by code_simp
  with ret have g: "map gold (sentences c) = [Some ''ab'', Some ''cd'', None]"
    by (simp add: read_state_def)
  have "map_option (\<lambda>c. sentences c ! 2) (read_state ?r) = Some sentence_type_default"
    by code_simp
  with ret have "sentences c ! 2 = sentence_type_default"
    by (simp add: read_state_def)
  with ret n g have "\<exists>c r. corpus_read demo_ext False False corpus_type_default
            three_declared_two_present = Return (False, c, r) \<and> nsentences c = 3 \<and>
          map gold (sentences c) = [Some ''ab'', Some ''cd'', None] \<and>
          sentences c ! 2 = sentence_type_default"
    by (intro exI [of _ c] exI [of _ r]) simp
  with hdr show ?thesis by simp
qed

section \<open>Re-reading into a sentence object\<close>

lemma pr_f_score_nonneg: "0 \<le> pr_f_score g t c"
proof -
  have "(0::rat) \<le> 2 * of_nat (unat c) / of_nat (unat t + unat g)"
    by (intro divide_nonneg_nonneg mult_nonneg_nonneg of_nat_0_le_iff) simp
  then show ?thesis
    unfolding pr_f_score_def by (simp only: if_split) simp
qed

text \<open>The loop leaves the largest of the old \<open>max_fscore\<close> and the F-scores it
  stored.\<close>

lemma parses_loop_max_fscore:
  "parses_loop ext dc ig ge i n s fp = (True, s', fp') \<Longrightarrow> n \<le> length (parses s) \<Longrightarrow>
     max_fscore s \<le> max_fscore s' \<and>
     (\<forall>j. i \<le> j \<and> j < n \<longrightarrow> f_score (parses s' ! j) \<le> max_fscore s') \<and>
     (max_fscore s' = max_fscore s \<or>
      (\<exists>j. i \<le> j \<and> j < n \<and> max_fscore s' = f_score (parses s' ! j)))"
proof (induction ext dc ig ge i n s fp rule: parses_loop.induct)
  case (1 ext dc ig ge i n s fp)
  show ?case
  proof (cases "i < n")
    case False
    with "1.prems" show ?thesis by (simp add: parses_loop.simps)
  next
    case True
    obtain ok1 p fp1 where rd: "parse_read ext dc ig (parses s ! i) fp = (ok1, p, fp1)"
      by (cases "parse_read ext dc ig (parses s ! i) fp")
    from True rd "1.prems"(1) have ok: ok1
      by (cases ok1) (auto simp: parses_loop.simps [of ext dc ig ge i n s fp])
    obtain ntest ncommon where pr: "precrec ext ge (parse p) = (ntest, ncommon)"
      by (cases "precrec ext ge (parse p)")
    define f where "f = pr_f_score (edges_nedges ext ge) ntest ncommon"
    define p1 where "p1 = p\<lparr>nedges := ntest, ncorrect := ncommon, f_score := f\<rparr>"
    define s1 where "s1 = s\<lparr>parses := (parses s)[i := p1]\<rparr>"
    define s2 where "s2 = (if f > max_fscore s1 then s1\<lparr>max_fscore := f\<rparr> else s1)"
    from True rd ok pr
    have "parses_loop ext dc ig ge i n s fp = parses_loop ext dc ig ge (Suc i) n s2 fp1"
      by (simp add: parses_loop.simps [of ext dc ig ge i n s fp] Let_def
          f_def p1_def s1_def s2_def)
    with "1.prems"(1) have run: "parses_loop ext dc ig ge (Suc i) n s2 fp1 = (True, s', fp')"
      by simp
    have len2: "n \<le> length (parses s2)"
      using "1.prems"(2) by (simp add: s2_def s1_def)
    from "1.IH" [OF True rd [symmetric] _ refl pr [symmetric] f_def p1_def s1_def s2_def run len2] ok
    have ih: "max_fscore s2 \<le> max_fscore s'"
      "\<forall>j. Suc i \<le> j \<and> j < n \<longrightarrow> f_score (parses s' ! j) \<le> max_fscore s'"
      "max_fscore s' = max_fscore s2 \<or>
         (\<exists>j. Suc i \<le> j \<and> j < n \<and> max_fscore s' = f_score (parses s' ! j))"
      by simp_all
    have m2: "max_fscore s2 = max (max_fscore s) f"
      by (simp add: s2_def s1_def max_def)
    from parses_loop_frame [OF run] have "parses s' ! i = parses s2 ! i" by simp
    also from True "1.prems"(2) have "\<dots> = p1" by (simp add: s2_def s1_def)
    finally have fi: "f_score (parses s' ! i) = f" by (simp add: p1_def)
    have a: "max_fscore s \<le> max_fscore s'"
      using ih(1) m2 by simp
    have b: "f_score (parses s' ! j) \<le> max_fscore s'" if "i \<le> j" "j < n" for j
    proof (cases "j = i")
      case True
      with fi ih(1) m2 show ?thesis by simp
    next
      case False
      with that ih(2) show ?thesis by simp
    qed
    have c: "max_fscore s' = max_fscore s \<or>
      (\<exists>j. i \<le> j \<and> j < n \<and> max_fscore s' = f_score (parses s' ! j))"
    proof -
      from ih(3) show ?thesis
      proof
        assume "max_fscore s' = max_fscore s2"
        with m2 fi True show ?thesis
          by (cases "max_fscore s \<le> f") (auto simp: max_def)
      next
        assume "\<exists>j. Suc i \<le> j \<and> j < n \<and> max_fscore s' = f_score (parses s' ! j)"
        then obtain j where "Suc i \<le> j" "j < n" "max_fscore s' = f_score (parses s' ! j)"
          by blast
        then have "i \<le> j \<and> j < n \<and> max_fscore s' = f_score (parses s' ! j)" by simp
        then show ?thesis by blast
      qed
    qed
    from a b c show ?thesis by blast
  qed
qed

text \<open>Read into a freshly constructed object, a sentence gets the maximum of the
  F-scores of its parses, or 0 without parses.\<close>

lemma sentence_read_fresh_max_fscore:
  assumes "sentence_read ext dc ig sentence_type_default fp = Return (True, s', fp')"
  shows "max_fscore s' = (if parses s' = [] then 0 else Max (set (map f_score (parses s'))))"
proof -
  let ?s = "sentence_type_default :: 'a sentence_type"
  from sentence_read_True [OF assms] obtain n fp1 buffer fp2 g where
    "fscanf_u fp = (Some n, fp1)" and "fgets 4000 fp1 = Some (buffer, fp2)"
    and g: "readtree ext (c_str buffer) dc = Some g"
    and loop: "parses_loop ext dc ig (edges ext g) 0 (unat n)
             (?s\<lparr>gold := Some g, gold_nedges := edges_nedges ext (edges ext g),
                parses := resize parse_type_default (parses ?s) (unat n)\<rparr>) fp2
             = (True, s', fp')"
    by blast
  let ?s0 = "?s\<lparr>gold := Some g, gold_nedges := edges_nedges ext (edges ext g),
                parses := resize parse_type_default (parses ?s) (unat n)\<rparr>"
  have len0: "unat n \<le> length (parses ?s0)" by (simp add: length_resize)
  from parses_loop_frame [OF loop] have len: "length (parses s') = unat n"
    by (simp add: length_resize)
  have m0: "max_fscore ?s0 = 0" by (simp add: sentence_type_default_def)
  from parses_loop_max_fscore [OF loop len0] m0 len
  have up: "\<forall>j<length (parses s'). f_score (parses s' ! j) \<le> max_fscore s'"
    and att: "max_fscore s' = 0 \<or> (\<exists>j<length (parses s'). max_fscore s' = f_score (parses s' ! j))"
    by auto
  have nonneg: "0 \<le> f_score (parses s' ! j)" if "j < length (parses s')" for j
    using parses_loop_scored [OF loop len0, of j] that len by (simp add: pr_f_score_nonneg)
  show ?thesis
  proof (cases "parses s' = []")
    case True
    with att show ?thesis by auto
  next
    case False
    have "\<exists>j<length (parses s'). max_fscore s' = f_score (parses s' ! j)"
    proof (rule disjE [OF att])
      assume z: "max_fscore s' = 0"
      from False have "0 < length (parses s')" by simp
      moreover from up z nonneg this have "f_score (parses s' ! 0) = 0"
        by (metis order_antisym)
      ultimately show ?thesis using z by auto
    qed
    then obtain j where j: "j < length (parses s')" "max_fscore s' = f_score (parses s' ! j)"
      by blast
    have "Max (set (map f_score (parses s'))) = max_fscore s'"
    proof (rule Max_eqI)
      show "finite (set (map f_score (parses s')))" by simp
      show "y \<le> max_fscore s'" if "y \<in> set (map f_score (parses s'))" for y
        using that up by (auto simp: in_set_conv_nth)
      from j show "max_fscore s' \<in> set (map f_score (parses s'))"
        by (auto simp: in_set_conv_nth intro!: exI [of _ j])
    qed
    with False show ?thesis by simp
  qed
qed

text \<open>
  C2: \<open>max_fscore\<close> is the maximum of the F-scores of the parses, whatever was read into
  the object before. \<open>sentence_type::read\<close> never resets \<open>max_fscore\<close>: a sentence
  object that has read a sentence whose best candidate scores 9/10 and then reads a
  sentence whose only candidate scores 1/2 ends with \<open>max_fscore = 9/10\<close>.
\<close>

theorem sentence_reread_keeps_old_max_fscore:
  "read_state (sentence_read demo_ext False False sentence_type_default sentence_nine_of_ten)
     = Some after_nine_of_ten \<and>
   read_ok (sentence_read demo_ext False False after_nine_of_ten sentence_five_of_ten)
     = Some True \<and>
   map_option (map f_score \<circ> parses)
     (read_state (sentence_read demo_ext False False after_nine_of_ten sentence_five_of_ten))
     = Some [1 / 2] \<and>
   map_option max_fscore
     (read_state (sentence_read demo_ext False False after_nine_of_ten sentence_five_of_ten))
     = Some (9 / 10)"
  by code_simp

section \<open>Reading with \<open>ignore_trees\<close>\<close>

text \<open>With \<open>ignore_trees\<close> the gold pointer stays \<open>NULL\<close>, and the assertion of line 223
  is reached whenever the candidate count scans: the read never returns true.\<close>

lemma sentence_read_ignore_trees:
  "sentence_read ext dc True s fp =
     (case fscanf_u fp of
        (None, fp1) \<Rightarrow> Return (False, s\<lparr>gold := None\<rparr>, drop 1000 fp1)
      | (Some n, fp1) \<Rightarrow> Assertion_failed)"
  by (simp add: sentence_read_def split: prod.splits option.splits)

lemma sentence_read_ignore_trees_not_true:
  "sentence_read ext dc True s fp \<noteq> Return (True, s', fp')"
  by (simp add: sentence_read_ignore_trees split: prod.splits option.splits)

text \<open>
  C7: on a well-formed stream \<open>sentence_type::read\<close> with \<open>ignore_trees\<close> returns true
  and trips no assertion. On a well-formed sentence with one candidate it stops at
  \<open>assert(gold != NULL)\<close>.
\<close>

theorem sentence_read_ignore_trees_asserts:
  "sentence_read demo_ext False True sentence_type_default sentence_six_of_eight
     = Assertion_failed"
  by code_simp

section \<open>The decompressor\<close>

lemma popen_decompress_examples:
  "popen_decompress stub_popen ''x.bz2'' = Return ''bzcat x.bz2'' \<and>
   popen_decompress stub_popen ''x.GZ'' = Return ''gunzip -c x.GZ'' \<and>
   popen_decompress stub_popen ''x.txt'' = Return ''cat x.txt''"
  by code_simp

lemma popen_decompress_launch_failure:
  "strrchr filename (CHR ''.'') = Some suffix \<Longrightarrow>
     popen_decompress (\<lambda>command. None) filename = Exit_failure"
  by (simp add: popen_decompress_def)

lemma of_char_tolower_0: "of_char (tolower c) = (0::nat) \<longleftrightarrow> of_char c = (0::nat)"
  by (simp add: tolower_def)

lemma tolower_NUL: "tolower c = CHR 0x00 \<longleftrightarrow> c = CHR 0x00"
proof -
  have "tolower c = CHR 0x00 \<longleftrightarrow> of_char (tolower c) = (of_char (CHR 0x00) :: nat)"
    by (simp only: of_char_eq_iff)
  also have "\<dots> \<longleftrightarrow> of_char c = (of_char (CHR 0x00) :: nat)"
    using of_char_tolower_0 [of c] by simp
  also have "\<dots> \<longleftrightarrow> c = CHR 0x00"
    by (simp only: of_char_eq_iff)
  finally show ?thesis .
qed

lemma int_of_char_0: "int (of_char c) = 0 \<longleftrightarrow> c = CHR 0x00"
proof -
  have "c = CHR 0x00 \<longleftrightarrow> of_char c = (of_char (CHR 0x00) :: nat)"
    by (simp only: of_char_eq_iff)
  then show ?thesis by simp
qed

lemma int_of_char_diff: "int (of_char a) - int (of_char b) = 0 \<longleftrightarrow> a = b"
  by simp

lemma of_char_tolower_pos: "c \<noteq> CHR 0x00 \<Longrightarrow> (0::nat) < of_char (tolower c)"
  using int_of_char_0 [of "tolower c"] tolower_NUL [of c] by simp

lemma strcasecmp_0_iff:
  "CHR 0x00 \<notin> set a \<Longrightarrow> CHR 0x00 \<notin> set b \<Longrightarrow>
     strcasecmp a b = 0 \<longleftrightarrow> map tolower a = map tolower b"
  by (induction a b rule: strcasecmp.induct)
    (auto simp: int_of_char_0 tolower_NUL dest: of_char_tolower_pos [OF not_sym])

lemma strrchr_Some_set: "strrchr s c = Some r \<Longrightarrow> set r \<subseteq> set s"
  by (induction s arbitrary: r) (auto split: option.splits if_splits)

lemma strrchr_None_iff: "strrchr s c = None \<longleftrightarrow> c \<notin> set s"
  by (induction s) (auto split: option.splits)

text \<open>For a filename with a dot the command is chosen by the lower-cased text from the
  last dot on.\<close>

lemma popen_decompress_by_suffix:
  assumes "strrchr filename (CHR ''.'') = Some filesuffix" and "CHR 0x00 \<notin> set filename"
  shows "popen_decompress popen filename =
           (case popen ((if map tolower filesuffix = ''.bz2'' then ''bzcat ''
                         else if map tolower filesuffix = ''.gz'' then ''gunzip -c ''
                         else ''cat '') @ filename) of
              None \<Rightarrow> Exit_failure
            | Some fp \<Rightarrow> Return fp)"
proof -
  from strrchr_Some_set [OF assms(1)] assms(2) have nul: "CHR 0x00 \<notin> set filesuffix"
    by blast
  have bz: "strcasecmp filesuffix ''.bz2'' = 0 \<longleftrightarrow> map tolower filesuffix = ''.bz2''"
    using strcasecmp_0_iff [OF nul, of "''.bz2''"] by (simp add: tolower_def)
  have gz: "strcasecmp filesuffix ''.gz'' = 0 \<longleftrightarrow> map tolower filesuffix = ''.gz''"
    using strcasecmp_0_iff [OF nul, of "''.gz''"] by (simp add: tolower_def)
  from assms(1) show ?thesis
    by (simp add: popen_decompress_def bz gz Let_def)
qed

lemma popen_decompress_without_dot:
  "CHR ''.'' \<notin> set filename \<Longrightarrow> popen_decompress popen filename = Invalid_deref"
  by (simp add: popen_decompress_def strrchr_None_iff [THEN iffD2])

text \<open>
  C9: for every filename the decompressor is chosen by the suffix, and a name with any
  other suffix is passed through \<open>cat\<close>. For a filename without a dot \<open>strrchr\<close>
  returns \<open>NULL\<close>, which \<open>strcasecmp\<close> dereferences: no command is launched.
\<close>

theorem popen_decompress_no_dot:
  "popen_decompress stub_popen ''corpus'' = Invalid_deref"
  by code_simp

section \<open>Copying and assigning \<open>parse_type\<close>\<close>

lemma tree_at_new_tree:
  "new_tree h t = (b, h1) \<Longrightarrow>
     tree_at h1 b = Some t \<and> tree_at h b = None \<and> (\<forall>a. tree_at h a \<noteq> None \<longrightarrow> tree_at h1 a = tree_at h a)"
  by (auto simp: new_tree_def tree_at_def nth_append)

text \<open>Where the source owns a live tree, the copy constructor gives the new object a tree
  of its own, equal to the source's, which outlives the source.\<close>

lemma parse_copy_deep:
  assumes dp: "dp < length (parse_objs m)"
    and own: "parse (parse_objs m ! dp) = Some a"
    and live: "tree_at (tree_heap m) a = Some t"
  shows "\<exists>m1 b. parse_copy m dp = Return (length (parse_objs m), m1) \<and>
           parse (parse_objs m1 ! length (parse_objs m)) = Some b \<and> b \<noteq> a \<and>
           tree_at (tree_heap m1) b = Some t \<and>
           tree_at (tree_heap (parse_destroy m1 dp)) b = Some t"
proof -
  let ?d = "parse_objs m ! dp"
  let ?b = "length (tree_heap m)"
  let ?p = "\<lparr>logprob = logprob ?d, nedges = nedges ?d, ncorrect = ncorrect ?d,
             f_score = f_score ?d, parse = Some ?b\<rparr>"
  let ?m1 = "m\<lparr>tree_heap := tree_heap m @ [Some t], parse_objs := parse_objs m @ [?p]\<rparr>"
  from live have a: "a < ?b" "tree_heap m ! a = Some t"
    by (auto simp: tree_at_def split: if_splits)
  from dp own live have "parse_copy m dp = Return (length (parse_objs m), ?m1)"
    by (simp add: parse_copy_def copy_tree_def new_tree_def Let_def)
  moreover have "parse (parse_objs ?m1 ! length (parse_objs m)) = Some ?b"
    by simp
  moreover from a have "?b \<noteq> a" by simp
  moreover have "tree_at (tree_heap ?m1) ?b = Some t"
    by (simp add: tree_at_def)
  moreover from dp own a have "tree_at (tree_heap (parse_destroy ?m1 dp)) ?b = Some t"
    by (simp add: parse_destroy_def delete_tree_def tree_at_def nth_append)
  ultimately show ?thesis by blast
qed

text \<open>So does assignment from a source that owns a live tree, to another object
  that does not share it.\<close>

lemma parse_assign_deep:
  assumes tgt: "this < length (parse_objs m)" and dp: "dp < length (parse_objs m)"
    and neq: "this \<noteq> dp"
    and own: "parse (parse_objs m ! dp) = Some a"
    and live: "tree_at (tree_heap m) a = Some t"
    and no_alias: "parse (parse_objs m ! this) \<noteq> Some a"
  shows "\<exists>m1 b. parse_assign m this dp = Return m1 \<and>
           parse (parse_objs m1 ! this) = Some b \<and> b \<noteq> a \<and>
           tree_at (tree_heap m1) b = Some t \<and>
           tree_at (tree_heap (parse_destroy m1 dp)) b = Some t"
proof -
  let ?d = "parse_objs m ! dp"
  let ?p = "(parse_objs m ! this)\<lparr>logprob := logprob ?d, nedges := nedges ?d,
              ncorrect := ncorrect ?d, f_score := f_score ?d\<rparr>"
  let ?h = "case parse ?p of Some a \<Rightarrow> delete_tree (tree_heap m) a | None \<Rightarrow> tree_heap m"
  let ?b = "length ?h"
  let ?m1 = "m\<lparr>tree_heap := ?h @ [Some t],
               parse_objs := (parse_objs m)[this := ?p\<lparr>parse := Some ?b\<rparr>]\<rparr>"
  from live have a: "a < length (tree_heap m)" "tree_heap m ! a = Some t"
    by (auto simp: tree_at_def split: if_splits)
  have len: "?b = length (tree_heap m)"
    by (simp add: delete_tree_def split: option.splits)
  from a no_alias have h: "tree_at ?h a = Some t"
    by (auto simp: tree_at_def delete_tree_def split: option.splits)
  from tgt dp neq own h have "parse_assign m this dp = Return ?m1"
    by (simp add: parse_assign_def copy_tree_def new_tree_def Let_def)
  moreover from tgt have "parse (parse_objs ?m1 ! this) = Some ?b"
    by simp
  moreover from a len have "?b \<noteq> a" by simp
  moreover have "tree_at (tree_heap ?m1) ?b = Some t"
    by (simp add: tree_at_def)
  moreover from tgt dp neq own a len have "tree_at (tree_heap (parse_destroy ?m1 dp)) ?b = Some t"
    by (simp add: parse_destroy_def delete_tree_def tree_at_def nth_append)
  ultimately show ?thesis by blast
qed

text \<open>
  C8: for every \<open>parse_type\<close> value, assignment deep-copies the tree. Assigning from a
  record that was read with \<open>ignore_trees\<close>, whose tree pointer is \<open>NULL\<close>, calls
  \<open>copy_tree\<close> through that pointer.
\<close>

theorem parse_assign_from_ignored_tree:
  "parse_assign ignored_tree_memory 0 1 = Invalid_deref"
  by code_simp

text \<open>
  C10: \<open>parse_type::operator=\<close> dereferences the tree pointer of its source without a
  test, so assigning from a record whose tree pointer is \<open>NULL\<close> to another object
  dereferences \<open>NULL\<close>; the copy constructor tests the pointer and gives the new object
  a \<open>NULL\<close> tree, leaving the heap as it is.
\<close>

theorem parse_assign_null_source:
  assumes "this < length (parse_objs m)" and "dp < length (parse_objs m)"
    and "this \<noteq> dp" and "parse (parse_objs m ! dp) = None"
  shows "parse_assign m this dp = Invalid_deref \<and>
         (\<exists>m1. parse_copy m dp = Return (length (parse_objs m), m1) \<and>
                parse (parse_objs m1 ! length (parse_objs m)) = None \<and>
                tree_heap m1 = tree_heap m)"
  using assms by (simp add: parse_assign_def parse_copy_def copy_tree_def Let_def)

theorem parse_assign_null_source_witness:
  "(0::nat) < length (parse_objs demo_memory) \<and> (1::nat) < length (parse_objs demo_memory) \<and>
   parse (parse_objs demo_memory ! 1) = None \<and>
   parse_assign demo_memory 0 1 = Invalid_deref \<and>
   (\<exists>m1. parse_copy demo_memory 1 = Return (length (parse_objs demo_memory), m1) \<and>
          parse (parse_objs m1 ! length (parse_objs demo_memory)) = None \<and>
          tree_heap m1 = tree_heap demo_memory)"
proof -
  have h: "(0::nat) < length (parse_objs demo_memory)" "(1::nat) < length (parse_objs demo_memory)"
    "(0::nat) \<noteq> 1" "parse (parse_objs demo_memory ! 1) = None"
    by (simp_all add: demo_memory_def parse_type_default_def)
  from parse_assign_null_source [OF h] h show ?thesis by blast
qed

section \<open>The F-score of a candidate\<close>

text \<open>
  C6: after a successful \<open>sentence_type::read\<close> every candidate holds the counts the
  scorer returned for its tree against the edges of the gold tree, the sentence holds the
  number of gold edges, and the stored F-score of every candidate is
  \<open>2 * common / (candidate edges + gold edges)\<close>, or 0 when that sum is 0. With 10 gold
  edges, 8 candidate edges and 6 common ones the F-score is 2/3, within 1e-4 of 0.6667.
\<close>

theorem sentence_read_f_score:
  assumes "sentence_read ext dc ig s fp = Return (True, s', fp')"
  shows "(\<exists>g. gold s' = Some g \<and> gold_nedges s' = edges_nedges ext (edges ext g) \<and>
            (\<forall>i<nparses s'.
               (nedges (parses s' ! i), ncorrect (parses s' ! i))
                 = precrec ext (edges ext g) (parse (parses s' ! i)))) \<and>
         (\<forall>i<nparses s'.
            f_score (parses s' ! i)
              = (if unat (nedges (parses s' ! i)) + unat (gold_nedges s') = 0 then 0
                 else 2 * of_nat (unat (ncorrect (parses s' ! i)))
                        / of_nat (unat (nedges (parses s' ! i)) + unat (gold_nedges s')))) \<and>
         pr_f_score 10 8 6 = 2 / 3 \<and> \<bar>pr_f_score 10 8 6 - 6667 / 10000\<bar> \<le> 1 / 10000"
proof -
  from sentence_read_True [OF assms] obtain n fp1 buffer fp2 g where
    "fscanf_u fp = (Some n, fp1)" and "fgets 4000 fp1 = Some (buffer, fp2)"
    and g: "readtree ext (c_str buffer) dc = Some g"
    and loop: "parses_loop ext dc ig (edges ext g) 0 (unat n)
             (s\<lparr>gold := Some g, gold_nedges := edges_nedges ext (edges ext g),
                parses := resize parse_type_default (parses s) (unat n)\<rparr>) fp2
             = (True, s', fp')"
    by blast
  let ?s0 = "s\<lparr>gold := Some g, gold_nedges := edges_nedges ext (edges ext g),
                parses := resize parse_type_default (parses s) (unat n)\<rparr>"
  from parses_loop_frame [OF loop]
  have fr: "length (parses s') = unat n" "gold s' = Some g"
    "gold_nedges s' = edges_nedges ext (edges ext g)"
    by (simp_all add: length_resize)
  have len: "unat n \<le> length (parses ?s0)" by (simp add: length_resize)
  have sc: "(nedges (parses s' ! i), ncorrect (parses s' ! i))
              = precrec ext (edges ext g) (parse (parses s' ! i)) \<and>
            f_score (parses s' ! i)
              = pr_f_score (edges_nedges ext (edges ext g)) (nedges (parses s' ! i))
                  (ncorrect (parses s' ! i))" if "i < nparses s'" for i
    using parses_loop_scored [OF loop len, of i] that fr by (simp add: nparses_def)
  have ex: "pr_f_score 10 8 6 = 2 / 3"
    by (simp add: pr_f_score_def)
  from fr sc ex show ?thesis
    by (simp add: pr_f_score_def)
qed

theorem sentence_read_f_score_witness:
  "read_ok (sentence_read demo_ext False False sentence_type_default sentence_six_of_eight)
     = Some True \<and>
   map_option (map ncorrect \<circ> parses)
     (read_state (sentence_read demo_ext False False sentence_type_default sentence_six_of_eight))
     = Some [6] \<and>
   map_option (map nedges \<circ> parses)
     (read_state (sentence_read demo_ext False False sentence_type_default sentence_six_of_eight))
     = Some [8] \<and>
   map_option gold_nedges
     (read_state (sentence_read demo_ext False False sentence_type_default sentence_six_of_eight))
     = Some 10 \<and>
   map_option (map f_score \<circ> parses)
     (read_state (sentence_read demo_ext False False sentence_type_default sentence_six_of_eight))
     = Some [2 * 6 / (8 + 10)]"
proof -
  let ?r = "sentence_read demo_ext False False sentence_type_default sentence_six_of_eight"
  have ok: "read_ok ?r = Some True"
    by code_simp
  from read_state_Return [OF ok] obtain s r where ret: "?r = Return (True, s, r)"
    by blast
  have counts: "map_option (map ncorrect \<circ> parses) (read_state ?r) = Some [6]"
    "map_option (map nedges \<circ> parses) (read_state ?r) = Some [8]"
    "map_option gold_nedges (read_state ?r) = Some 10"
    by code_simp+
  with ret have c: "map ncorrect (parses s) = [6]" "map nedges (parses s) = [8]" "gold_nedges s = 10"
    by (simp_all add: read_state_def)
  then have len: "nparses s = 1" "ncorrect (parses s ! 0) = 6" "nedges (parses s ! 0) = 8"
    by (auto simp: nparses_def map_eq_Cons_conv)
  from sentence_read_f_score [OF ret] len
  have "f_score (parses s ! 0) = 2 * 6 / (8 + 10)"
    using c(3) by simp
  with len have "map f_score (parses s) = [2 * 6 / (8 + 10)]"
    by (cases "parses s") (auto simp: nparses_def)
  with ok counts ret show ?thesis
    by (simp add: read_state_def)
qed

section \<open>Visiting the sentences and reading the corpus\<close>






section \<open>The order of the fields and the length of a line\<close>

lemma isdigit_not_isspace: "isdigit c \<Longrightarrow> \<not> isspace c"
  by (auto simp: isdigit_def isspace_def)

lemma isdigit_not_sign: "isdigit c \<Longrightarrow> c \<noteq> CHR ''-'' \<and> c \<noteq> CHR ''+''"
  by (auto simp: isdigit_def)

lemma takeWhile_prefix:
  "\<forall>c\<in>set xs. P c \<Longrightarrow> r = [] \<or> \<not> P (hd r) \<Longrightarrow>
     takeWhile P (xs @ r) = xs \<and> dropWhile P (xs @ r) = r"
  by (cases r) (auto simp: takeWhile_append2 dropWhile_append2)

lemma fscanf_u_count:
  assumes ds: "ds \<noteq> []" "\<forall>c\<in>set ds. isdigit c"
    and ws: "\<forall>c\<in>set ws. isspace c"
    and r: "r = [] \<or> \<not> isspace (hd r) \<and> \<not> isdigit (hd r)"
  shows "fscanf_u (ds @ ws @ r) = (Some (of_nat (decimal ds)), r)"
proof -
  from ds obtain d ds' where dd: "ds = d # ds'" "isdigit d"
    by (cases ds) auto
  then have skip: "skip_ws (ds @ ws @ r) = ds @ ws @ r"
    by (simp add: skip_ws_def isdigit_not_isspace)
  from dd have sign: "scan_sign (ds @ ws @ r) = (False, ds @ ws @ r)"
    by (simp add: scan_sign_def isdigit_not_sign)
  have "ws @ r = [] \<or> \<not> isdigit (hd (ws @ r))"
    using ws r by (cases ws) (auto dest: isdigit_not_isspace)
  from takeWhile_prefix [OF ds(2) this]
  have tw: "takeWhile isdigit (ds @ ws @ r) = ds" "dropWhile isdigit (ds @ ws @ r) = ws @ r"
    by simp_all
  from r have "r = [] \<or> \<not> isspace (hd r)" by blast
  from takeWhile_prefix [OF ws this] have sk: "skip_ws (ws @ r) = r"
    by (simp add: skip_ws_def)
  from ds(1) show ?thesis
    by (simp add: fscanf_u_def skip scan_u_def sign tw sk Let_def)
qed

lemma fgets_chars_line:
  "newline \<notin> set line \<Longrightarrow> length line < k \<Longrightarrow>
     fgets_chars k (line @ newline # rest) = (line @ [newline], rest)"
  by (induction line arbitrary: k) auto

lemma fgets_chars_long:
  "k \<le> length xs \<Longrightarrow> newline \<notin> set (take k xs) \<Longrightarrow>
     fgets_chars k xs = (take k xs, drop k xs)"
proof (induction xs arbitrary: k)
  case Nil
  then show ?case by simp
next
  case (Cons x xs)
  show ?case
  proof (cases k)
    case 0
    then show ?thesis by simp
  next
    case (Suc k')
    with Cons.prems have "k' \<le> length xs" "newline \<notin> set (take k' xs)" "x \<noteq> newline"
      by auto
    with Cons.IH [of k'] Suc show ?thesis by simp
  qed
qed

lemma fgets_line:
  "newline \<notin> set line \<Longrightarrow> length line < 3999 \<Longrightarrow>
     fgets 4000 (line @ newline # rest) = Some (line @ [newline], rest)"
  by (simp add: fgets_def fgets_chars_line)

lemma fgets_long:
  "3999 \<le> length fp \<Longrightarrow> newline \<notin> set (take 3999 fp) \<Longrightarrow>
     fgets 4000 fp = Some (take 3999 fp, drop 3999 fp)"
  by (auto simp: fgets_def fgets_chars_long)

lemma long_line_facts:
  "3999 \<le> length (replicate 3999 (CHR ''a'') @ ''bc'' @ nl)"
  "newline \<notin> set (take 3999 (replicate 3999 (CHR ''a'') @ ''bc'' @ nl))"
  "take 3999 (replicate 3999 (CHR ''a'') @ ''bc'' @ nl) = replicate 3999 (CHR ''a'')"
  "drop 3999 (replicate 3999 (CHR ''a'') @ ''bc'' @ nl) = ''bc'' @ nl"
  "skip_ws (replicate 3999 (CHR ''a'') @ ''bc'' @ nl) = replicate 3999 (CHR ''a'') @ ''bc'' @ nl"
  "c_str (replicate 3999 (CHR ''a'')) = replicate 3999 (CHR ''a'')"
  "demo_readtree (replicate 3999 (CHR ''a'')) False = Some (replicate 3999 (CHR ''a''))"
  by (simp_all add: newline_def skip_ws_def isspace_def c_str_def demo_readtree_def
      dropWhile_append1 [where x = "CHR ''a''"])

lemma long_candidate_scan:
  "fscanf_lf demo_ext long_candidate = (Some (- (3 / 2)), replicate 3999 (CHR ''a'') @ ''bc'' @ nl)"
proof -
  have "scan_lf demo_ext (skip_ws long_candidate)
          = (Some (- (3 / 2)), CHR '' '' # replicate 3999 (CHR ''a'') @ ''bc'' @ nl)"
    by (simp add: long_candidate_def demo_ext_def demo_scan_lf_def skip_ws_def scan_sign_def
        isdigit_def isspace_def decimal_def digit_val_def)
  moreover have "skip_ws (CHR '' '' # replicate 3999 (CHR ''a'') @ ''bc'' @ nl)
                   = replicate 3999 (CHR ''a'') @ ''bc'' @ nl"
    using long_line_facts(5) by (simp add: skip_ws_def isspace_def)
  ultimately show ?thesis by (simp add: fscanf_lf_def)
qed

lemma long_gold_scan:
  "fscanf_u long_gold_sentence = (Some 1, replicate 3999 (CHR ''a'') @ ''bc'' @ nl)"
proof -
  have "scan_u (skip_ws long_gold_sentence)
          = (Some 1, CHR '' '' # replicate 3999 (CHR ''a'') @ ''bc'' @ nl)"
    by (simp add: long_gold_sentence_def scan_u_def skip_ws_def scan_sign_def
        isdigit_def isspace_def decimal_def digit_val_def)
  moreover have "skip_ws (CHR '' '' # replicate 3999 (CHR ''a'') @ ''bc'' @ nl)
                   = replicate 3999 (CHR ''a'') @ ''bc'' @ nl"
    using long_line_facts(5) by (simp add: skip_ws_def isspace_def)
  ultimately show ?thesis by (simp add: fscanf_u_def)
qed

text \<open>
  C4, as stated: for every sentence the reader consumes the gold tree line first and the
  candidate count second. A sentence laid out in that order is not read: the scan of the
  count meets the gold tree and the read returns false. The same sentence with the count
  first and the gold tree on the rest of that line is read.
\<close>

theorem sentence_read_gold_line_first_fails:
  "read_ok (sentence_read demo_ext False False sentence_type_default gold_line_first)
     = Some False \<and>
   read_ok (sentence_read demo_ext False False sentence_type_default sentence_nine_of_ten)
     = Some True \<and>
   map_option gold
     (read_state (sentence_read demo_ext False False sentence_type_default sentence_nine_of_ten))
     = Some (Some ''abcdefghij'')"
  by code_simp

text \<open>
  C4, amended: after the corpus-level sentence count, the bytes of each sentence are
  consumed in the order candidate count, gold tree, candidate records: the count is
  scanned first with the white space behind it, the rest of that line is the gold tree,
  and the candidates are read from what follows the newline.
\<close>

theorem sentence_read_count_then_gold:
  assumes "ds \<noteq> []" and "\<forall>c\<in>set ds. isdigit c" and "\<forall>c\<in>set ws. isspace c"
    and "line \<noteq> []" and "\<not> isspace (hd line)" and "\<not> isdigit (hd line)"
    and "newline \<notin> set line" and "length line < 3999"
  shows "fscanf_u (ds @ ws @ line @ newline # rest)
           = (Some (of_nat (decimal ds)), line @ newline # rest) \<and>
         fgets 4000 (line @ newline # rest) = Some (line @ [newline], rest) \<and>
         sentence_read ext dc False s (ds @ ws @ line @ newline # rest) =
           (case readtree ext (c_str (line @ [newline])) dc of
              None \<Rightarrow> Assertion_failed
            | Some g \<Rightarrow>
                Return (parses_loop ext dc False (edges ext g) 0 (unat (of_nat (decimal ds) :: size_type))
                  (s\<lparr>gold := Some g, gold_nedges := edges_nedges ext (edges ext g),
                     parses := resize parse_type_default (parses s)
                                 (unat (of_nat (decimal ds) :: size_type))\<rparr>) rest))"
proof -
  from assms(4-6) have "line @ newline # rest = [] \<or>
      \<not> isspace (hd (line @ newline # rest)) \<and> \<not> isdigit (hd (line @ newline # rest))"
    by simp
  from fscanf_u_count [OF assms(1-3) this]
  have hdr: "fscanf_u (ds @ ws @ line @ newline # rest)
           = (Some (of_nat (decimal ds)), line @ newline # rest)" .
  from fgets_line [OF assms(7,8)]
  have ln: "fgets 4000 (line @ newline # rest) = Some (line @ [newline], rest)" .
  from hdr ln show ?thesis
    by (simp add: sentence_read_def Let_def split: option.splits)
qed

theorem sentence_read_count_then_gold_witness:
  "sentence_nine_of_ten = ''1'' @ '' '' @ ''abcdefghij'' @ newline # (''-1.5 abcdefghiX'' @ nl) \<and>
   fscanf_u sentence_nine_of_ten = (Some 1, ''abcdefghij'' @ newline # (''-1.5 abcdefghiX'' @ nl)) \<and>
   fgets 4000 (''abcdefghij'' @ newline # (''-1.5 abcdefghiX'' @ nl))
     = Some (''abcdefghij'' @ [newline], ''-1.5 abcdefghiX'' @ nl)"
proof -
  have split: "sentence_nine_of_ten
                 = ''1'' @ '' '' @ ''abcdefghij'' @ newline # (''-1.5 abcdefghiX'' @ nl)"
    by (simp add: sentence_nine_of_ten_def nl_def)
  have h: "''1'' \<noteq> []" "\<forall>c\<in>set ''1''. isdigit c" "\<forall>c\<in>set '' ''. isspace c"
    "''abcdefghij'' \<noteq> []" "\<not> isspace (hd ''abcdefghij'')" "\<not> isdigit (hd ''abcdefghij'')"
    "newline \<notin> set ''abcdefghij''" "length ''abcdefghij'' < 3999"
    by (simp_all add: isdigit_def isspace_def newline_def)
  note inst = sentence_read_count_then_gold [where rest = "''-1.5 abcdefghiX'' @ nl"
      and ext = demo_ext and dc = False and s = sentence_type_default, OF h, folded split]
  have "(of_nat (decimal ''1'') :: size_type) = 1"
    by (simp add: decimal_def digit_val_def)
  with inst split show ?thesis
    by simp
qed

text \<open>
  C5, as stated: a tree line longer than the buffer makes the read fail. A candidate
  whose tree text has 4001 characters is read with success: its tree is built from the
  first 3999 characters, and the other two stay in the stream.
\<close>

theorem long_candidate_read_succeeds:
  "parse_read demo_ext False False parse_type_default long_candidate
     = (True,
        parse_type_default\<lparr>parse := Some (replicate 3999 (CHR ''a'')), logprob := - (3 / 2)\<rparr>,
        ''bc'' @ nl)"
  using long_candidate_scan long_line_facts
  by (simp add: parse_read_def fgets_long demo_ext_def)

text \<open>
  C5, amended: when the stream holds 3999 characters or more before the next newline where
  a tree line is read, \<open>fgets\<close> delivers the first 3999 of them and leaves the others in
  the stream; \<open>parse_type::read\<close> returns true with the tree parsed from those 3999
  characters, and \<open>sentence_type::read\<close> goes on with the gold tree parsed from them,
  reading the candidates from the remainder of the line.
\<close>

theorem long_tree_line_truncated:
  assumes "3999 \<le> length fp1" and "newline \<notin> set (take 3999 fp1)"
    and "fscanf_lf ext fp = (Some v, fp1)" and "fscanf_u fp' = (Some n, fp1)"
  shows "fgets 4000 fp1 = Some (take 3999 fp1, drop 3999 fp1) \<and>
         parse_read ext dc False p fp
           = (True, p\<lparr>parse := readtree ext (c_str (take 3999 fp1)) dc, logprob := v\<rparr>,
              drop 3999 fp1) \<and>
         sentence_read ext dc False s fp' =
           (case readtree ext (c_str (take 3999 fp1)) dc of
              None \<Rightarrow> Assertion_failed
            | Some g \<Rightarrow>
                Return (parses_loop ext dc False (edges ext g) 0 (unat n)
                  (s\<lparr>gold := Some g, gold_nedges := edges_nedges ext (edges ext g),
                     parses := resize parse_type_default (parses s) (unat n)\<rparr>)
                  (drop 3999 fp1)))"
proof -
  from fgets_long [OF assms(1,2)]
  have ln: "fgets 4000 fp1 = Some (take 3999 fp1, drop 3999 fp1)" .
  with assms(3,4) show ?thesis
    by (simp add: parse_read_def sentence_read_def Let_def split: option.splits)
qed

theorem long_tree_line_truncated_witness:
  "3999 \<le> length (replicate 3999 (CHR ''a'') @ ''bc'' @ nl) \<and>
   fscanf_lf demo_ext long_candidate = (Some (- (3 / 2)), replicate 3999 (CHR ''a'') @ ''bc'' @ nl) \<and>
   fscanf_u long_gold_sentence = (Some 1, replicate 3999 (CHR ''a'') @ ''bc'' @ nl) \<and>
   fgets 4000 (replicate 3999 (CHR ''a'') @ ''bc'' @ nl)
     = Some (replicate 3999 (CHR ''a''), ''bc'' @ nl) \<and>
   fst (parse_read demo_ext False False parse_type_default long_candidate) \<and>
   parse (fst (snd (parse_read demo_ext False False parse_type_default long_candidate)))
     = Some (replicate 3999 (CHR ''a'')) \<and>
   map_option gold
     (read_state (sentence_read demo_ext False False sentence_type_default long_gold_sentence))
     = Some (Some (replicate 3999 (CHR ''a'')))"
proof -
  note inst = long_tree_line_truncated [where dc = False and p = parse_type_default
      and s = sentence_type_default, OF long_line_facts(1,2) long_candidate_scan long_gold_scan]
  from inst have "fgets 4000 (replicate 3999 (CHR ''a'') @ ''bc'' @ nl)
     = Some (replicate 3999 (CHR ''a''), ''bc'' @ nl)"
    by (simp add: long_line_facts)
  moreover from inst have "fst (parse_read demo_ext False False parse_type_default long_candidate)"
    "parse (fst (snd (parse_read demo_ext False False parse_type_default long_candidate)))
       = Some (replicate 3999 (CHR ''a''))"
    by (simp_all add: long_line_facts demo_ext_def)
  moreover
  have "readtree demo_ext (c_str (take 3999 (replicate 3999 (CHR ''a'') @ ''bc'' @ nl))) False
          = Some (replicate 3999 (CHR ''a''))"
    by (simp add: long_line_facts demo_ext_def)
  note inst = inst [unfolded this]
  let ?loop = "parses_loop demo_ext False False (edges demo_ext (replicate 3999 (CHR ''a''))) 0
           (unat (1::size_type))
           (sentence_type_default\<lparr>gold := Some (replicate 3999 (CHR ''a'')),
              gold_nedges := edges_nedges demo_ext (edges demo_ext (replicate 3999 (CHR ''a''))),
              parses := resize parse_type_default (parses sentence_type_default)
                          (unat (1::size_type))\<rparr>)
           (drop 3999 (replicate 3999 (CHR ''a'') @ ''bc'' @ nl))"
  from inst have sr:
    "sentence_read demo_ext False False sentence_type_default long_gold_sentence = Return ?loop"
    by simp
  obtain ok s' r where pl: "?loop = (ok, s', r)"
    by (cases ?loop)
  from parses_loop_frame [OF pl] have "gold s' = Some (replicate 3999 (CHR ''a''))"
    by simp
  with sr pl have "map_option gold
     (read_state (sentence_read demo_ext False False sentence_type_default long_gold_sentence))
     = Some (Some (replicate 3999 (CHR ''a'')))"
    by (simp add: read_state_def)
  ultimately show ?thesis
    using long_line_facts(1) long_candidate_scan long_gold_scan by simp
qed

end
